theory Spec2Isabelle
  imports Main "HOL-Library.Sublist"
begin

section \<open>Strings of the scenario labels\<close>

text \<open>
  A scenario text is a \<^typ>\<open>string\<close>: a list of characters with code points 0 to 255.
  The string operations of the tag extractor (\<open>lower\<close>, \<open>in\<close>, \<open>strip\<close>, \<open>title\<close>,
  \<open>replace\<close>) and the three regular expressions it uses are written out below with the
  behaviour they have on such texts.
\<close>

definition is_upper_az :: "char \<Rightarrow> bool" where
  "is_upper_az c = (65 \<le> (of_char c :: nat) \<and> (of_char c :: nat) \<le> 90)"

definition is_lower_az :: "char \<Rightarrow> bool" where
  "is_lower_az c = (97 \<le> (of_char c :: nat) \<and> (of_char c :: nat) \<le> 122)"

definition is_upper_latin :: "char \<Rightarrow> bool" where
  "is_upper_latin c = (192 \<le> (of_char c :: nat) \<and> (of_char c :: nat) \<le> 222
                        \<and> (of_char c :: nat) \<noteq> 215)"

definition is_lower_latin :: "char \<Rightarrow> bool" where
  "is_lower_latin c = (224 \<le> (of_char c :: nat) \<and> (of_char c :: nat) \<le> 254
                        \<and> (of_char c :: nat) \<noteq> 247)"

definition lower_char :: "char \<Rightarrow> char" where
  "lower_char c = (if is_upper_az c \<or> is_upper_latin c
                   then char_of ((of_char c :: nat) + 32) else c)"

text \<open>
  Upper-casing of a single character. The three lower-case characters 181, 223 and 255
  have an upper case outside the 8-bit range; they are left as they are here. The only
  caller, \<open>title\<close>, is applied to a regex capture over \<open>[a-z\s-]\<close>, where they cannot
  occur.
\<close>

definition upper_char :: "char \<Rightarrow> char" where
  "upper_char c = (if is_lower_az c \<or> is_lower_latin c
                   then char_of ((of_char c :: nat) - 32) else c)"

definition is_cased :: "char \<Rightarrow> bool" where
  "is_cased c = (is_upper_az c \<or> is_lower_az c \<or> is_upper_latin c \<or> is_lower_latin c
                 \<or> (of_char c :: nat) = 170 \<or> (of_char c :: nat) = 181
                 \<or> (of_char c :: nat) = 186 \<or> (of_char c :: nat) = 223
                 \<or> (of_char c :: nat) = 255)"

text \<open>Whitespace as \<open>str.strip()\<close> and the regex class \<open>\s\<close> see it.\<close>

definition is_space :: "char \<Rightarrow> bool" where
  "is_space c = ((9 \<le> (of_char c :: nat) \<and> (of_char c :: nat) \<le> 13)
                 \<or> (28 \<le> (of_char c :: nat) \<and> (of_char c :: nat) \<le> 32)
                 \<or> (of_char c :: nat) = 133 \<or> (of_char c :: nat) = 160)"

text \<open>The character class \<open>[a-z\s-]\<close> of the set-off capture.\<close>

definition setoff_char :: "char \<Rightarrow> bool" where
  "setoff_char c = (is_lower_az c \<or> is_space c \<or> c = CHR ''-'')"

definition lower :: "string \<Rightarrow> string" where
  "lower s = map lower_char s"

text \<open>\<open>p in s\<close> on strings: \<open>p\<close> occurs as a contiguous block of \<open>s\<close>.\<close>

fun contains :: "string \<Rightarrow> string \<Rightarrow> bool" where
  "contains p [] = (p = [])"
| "contains p (x # xs) = (prefix p (x # xs) \<or> contains p xs)"

definition lstrip :: "string \<Rightarrow> string" where
  "lstrip s = dropWhile is_space s"

definition rstrip :: "string \<Rightarrow> string" where
  "rstrip s = rev (dropWhile is_space (rev s))"

definition strip :: "string \<Rightarrow> string" where
  "strip s = rstrip (lstrip s)"

text \<open>
  \<open>str.title()\<close>: a cased character is upper-cased when the character before it is not
  cased, and lower-cased otherwise.
\<close>

fun title_from :: "bool \<Rightarrow> string \<Rightarrow> string" where
  "title_from prev [] = []"
| "title_from prev (c # cs) =
     (if prev then lower_char c else upper_char c) # title_from (is_cased c) cs"

definition title :: "string \<Rightarrow> string" where
  "title s = title_from False s"

text \<open>
  \<open>str.replace(old, new)\<close>: the occurrences of \<open>old\<close> are taken from the left and do not
  overlap. With an empty \<open>old\<close>, \<open>new\<close> is put before every character and at the end.
\<close>

function replace_str :: "string \<Rightarrow> string \<Rightarrow> string \<Rightarrow> string" where
  "replace_str old new s =
     (if old = [] then new @ concat (map (\<lambda>c. c # new) s)
      else if prefix old s then new @ replace_str old new (drop (length old) s)
      else (case s of [] \<Rightarrow> [] | x # xs \<Rightarrow> x # replace_str old new xs))"
  by pat_completeness auto
termination
  by (relation "measure (\<lambda>(old, new, s). length s)") (auto simp: prefix_def)

declare replace_str.simps [simp del]

section \<open>The regular expressions\<close>

text \<open>
  The patterns of the source are sequences of three kinds of items: a literal character,
  a greedy \<open>c*\<close> over a character class, and the capturing group \<open>(c+)\<close> over a character
  class. \<open>run\<close> is the backtracking matcher: a greedy item first takes as many characters
  as it can and gives them back one at a time while the rest of the pattern fails. It
  returns the text of group 1 (\<open>None\<close> when the group took no part) and the input left
  after the match.
\<close>

datatype atom = Chr char | Star "char \<Rightarrow> bool" | Group1Plus "char \<Rightarrow> bool"

fun first_some :: "'a option list \<Rightarrow> 'a option" where
  "first_some [] = None"
| "first_some (None # xs) = first_some xs"
| "first_some (Some y # xs) = Some y"

fun run :: "atom list \<Rightarrow> string \<Rightarrow> string option \<Rightarrow> (string option \<times> string) option" where
  "run [] s g = Some (g, s)"
| "run (Chr c # as) s g =
     (case s of [] \<Rightarrow> None | x # xs \<Rightarrow> if x = c then run as xs g else None)"
| "run (Star k # as) s g =
     first_some (map (\<lambda>n. run as (drop n s) g)
                     (rev [0 ..< Suc (length (takeWhile k s))]))"
| "run (Group1Plus k # as) s g =
     first_some (map (\<lambda>n. run as (drop n s) (Some (take n s)))
                     (rev [1 ..< Suc (length (takeWhile k s))]))"

text \<open>\<open>re.search\<close>: the match at the leftmost start position that has one.\<close>

definition re_search :: "atom list \<Rightarrow> string \<Rightarrow> (string option \<times> string) option" where
  "re_search p s = first_some (map (\<lambda>i. run p (drop i s) None) [0 ..< Suc (length s)])"

text \<open>
  \<open>re.sub\<close> with a constant replacement: matches are taken from the left and do not
  overlap; a character where no match starts is copied. An empty match is replaced and
  the scan moves one character on.
\<close>

function re_sub :: "atom list \<Rightarrow> string \<Rightarrow> string \<Rightarrow> string" where
  "re_sub p repl s =
     (case run p s None of
        Some (g, rest) \<Rightarrow>
          if length rest < length s then repl @ re_sub p repl rest
          else (case s of [] \<Rightarrow> repl | x # xs \<Rightarrow> repl @ x # re_sub p repl xs)
      | None \<Rightarrow> (case s of [] \<Rightarrow> [] | x # xs \<Rightarrow> x # re_sub p repl xs))"
  by pat_completeness auto
termination
  by (relation "measure (\<lambda>(p, repl, s). length s)") auto

declare re_sub.simps [simp del]

text \<open>\<open>set-off\s*:\s*([a-z\s-]+)\<close>\<close>

definition rx_setoff :: "atom list" where
  "rx_setoff = map Chr ''set-off'' @
     [Star is_space, Chr (CHR '':''), Star is_space, Group1Plus setoff_char]"

text \<open>\<open>set-off\s*[:]\s*([a-z\s-]+)\s*\|\<close>\<close>

definition rx_setoff_pipe :: "atom list" where
  "rx_setoff_pipe = map Chr ''set-off'' @
     [Star is_space, Chr (CHR '':''), Star is_space, Group1Plus setoff_char,
      Star is_space, Chr (CHR ''|'')]"

text \<open>\<open>\s*\|\s*\<close>\<close>

definition rx_pipe :: "atom list" where
  "rx_pipe = [Star is_space, Chr (CHR ''|''), Star is_space]"

section \<open>The tag extractor\<close>

datatype py_error = AttributeError

record tags =
  approach :: string
  fwo :: string
  setoff :: string
  cond_557c :: string
  clause :: string
  label :: string

text \<open>
  \<open>m.group(1).strip().title()\<close>: \<open>group(1)\<close> of a match is \<open>None\<close> when the group took
  no part in it, and \<open>None.strip()\<close> raises.
\<close>

definition group1_strip_title :: "string option \<Rightarrow> py_error + string" where
  "group1_strip_title g =
     (case g of None \<Rightarrow> Inl AttributeError | Some c \<Rightarrow> Inr (title (strip c)))"

definition approach_of :: "string \<Rightarrow> string" where
  "approach_of t =
     (if contains ''judgement based'' t then ''Judgement Based''
      else if contains ''coles based'' t then ''Coles Based''
      else ''Unknown'')"

definition fwo_of :: "string \<Rightarrow> string" where
  "fwo_of t =
     (if contains ''without fwo'' t then ''Without FWO''
      else if contains ''with fwo'' t \<or> contains ''after fwo'' t then ''With FWO''
      else ''Unknown'')"

text \<open>The keyword scan of lines 71 to 76; \<open>setoff\<close> keeps its default when no branch fires.\<close>

definition setoff_keywords :: "string \<Rightarrow> string" where
  "setoff_keywords t =
     (if contains ''pay period'' t then ''Pay Period''
      else if contains ''annual'' t then ''Annual''
      else if contains ''bi annual'' t \<or> contains ''bi-annual'' t \<or> contains ''biannual'' t
      then ''Bi Annual''
      else ''Unknown'')"

definition setoff_of :: "string \<Rightarrow> py_error + string" where
  "setoff_of t =
     (if contains ''set-off'' t then
        (case re_search rx_setoff t of
           Some (g, rest) \<Rightarrow> group1_strip_title g
         | None \<Rightarrow>
            (case re_search rx_setoff_pipe t of
               Some (g2, rest2) \<Rightarrow> group1_strip_title g2
             | None \<Rightarrow> Inr (setoff_keywords t)))
      else Inr ''Unknown'')"

definition cond_557c_of :: "string \<Rightarrow> string" where
  "cond_557c_of t =
     (if contains ''557c'' t then
        (if contains ''all shifts'' t then ''All Shifts''
         else if contains ''non-clocked'' t \<or> contains ''non clocked'' t
         then ''Non-Clocked Shifts''
         else ''557C (Unspecified)'')
      else ''N/A'')"

definition clause_of :: "string \<Rightarrow> string" where
  "clause_of t = (if contains ''28.11'' t then ''28.11'' else ''Unknown'')"

text \<open>Line 94 without the final \<open>strip\<close>: \<open>re.sub(r"\s*\|\s*", " | ", short)\<close>.\<close>

definition sub_pipes :: "string \<Rightarrow> string" where
  "sub_pipes s = re_sub rx_pipe '' | '' s"

definition short_label :: "string \<Rightarrow> string" where
  "short_label text = strip (sub_pipes (replace_str ''Apporach'' ''Approach'' text))"

definition parse_features_and_tags :: "string \<Rightarrow> py_error + tags" where
  "parse_features_and_tags text =
     (let t = lower text in
      case setoff_of t of
        Inl e \<Rightarrow> Inl e
      | Inr so \<Rightarrow>
          Inr \<lparr> approach = approach_of t, fwo = fwo_of t, setoff = so,
                cond_557c = cond_557c_of t, clause = clause_of t,
                label = short_label text \<rparr>)"


section \<open>The consolidated set-off rule of the specification\<close>

text \<open>
  The specification proposes to replace the two capture attempts by one rule: capture
  the text after the set-off marker, stopping at a pipe or at the end of the clause,
  and use the keyword scan only if the capture is empty. \<open>setoff_consolidated\<close> follows
  these words: the single pattern is the first one of the source (its class
  \<open>[a-z\s-]\<close> stops at a pipe and at any other character that ends the phrase), the
  captured phrase is stripped and title-cased, and the keyword scan is used when there
  is no capture or the capture is the empty text.
\<close>

definition setoff_consolidated :: "string \<Rightarrow> string" where
  "setoff_consolidated t =
     (if contains ''set-off'' t then
        (case re_search rx_setoff t of
           None \<Rightarrow> setoff_keywords t
         | Some (g, rest) \<Rightarrow>
            (case g of
               None \<Rightarrow> setoff_keywords t
             | Some c \<Rightarrow> if c = [] then setoff_keywords t else title (strip c)))
      else ''Unknown'')"

text \<open>
  A match of the pipe pattern starts at the head of \<open>s\<close>: after the leading
  whitespace comes a pipe.
\<close>

definition pipe_next :: "string \<Rightarrow> bool" where
  "pipe_next s = (case lstrip s of [] \<Rightarrow> False | c # cs \<Rightarrow> c = CHR ''|'')"

definition all_space :: "string \<Rightarrow> bool" where
  "all_space s = (dropWhile is_space s = [])"

text \<open>The class of a capturing group lies within \<open>K\<close>; other items pass.\<close>

definition group_class_within :: "(char \<Rightarrow> bool) \<Rightarrow> atom \<Rightarrow> bool" where
  "group_class_within K a = (case a of Group1Plus k \<Rightarrow> (\<forall>x. k x \<longrightarrow> K x) | _ \<Rightarrow> True)"

section \<open>Facts about the matcher\<close>

lemma contains_sublist: "contains p s = sublist p s"
  by (induction s) (simp_all add: sublist_Cons_right)

lemma first_some_SomeD: "first_some xs = Some y \<Longrightarrow> Some y \<in> set xs"
  by (induction xs rule: first_some.induct) auto

lemma first_some_NoneD: "first_some xs = None \<Longrightarrow> x \<in> set xs \<Longrightarrow> x = None"
  by (induction xs rule: first_some.induct) auto

lemma first_some_NoneI: "(\<And>x. x \<in> set xs \<Longrightarrow> x = None) \<Longrightarrow> first_some xs = None"
  by (induction xs rule: first_some.induct) auto

lemma first_some_map_SomeD:
  "first_some (map f ns) = Some y \<Longrightarrow> \<exists>n. n \<in> set ns \<and> f n = Some y"
  by (drule first_some_SomeD) auto

text \<open>A match of a pattern that has the group sets the group.\<close>

lemma run_group1:
  "run as s g = Some (g', rest) \<Longrightarrow> g \<noteq> None \<or> (\<exists>k. Group1Plus k \<in> set as) \<Longrightarrow> g' \<noteq> None"
proof (induction as s g rule: run.induct)
  case (1 s g)
  then show ?case by simp
next
  case (2 c as s g)
  then show ?case by (auto split: list.splits if_splits)
next
  case (3 k as s g)
  from 3(2) have "first_some (map (\<lambda>n. run as (drop n s) g)
                     (rev [0 ..< Suc (length (takeWhile k s))])) = Some (g', rest)"
    by (simp only: run.simps)
  then obtain n where n: "n \<in> set (rev [0 ..< Suc (length (takeWhile k s))])"
    and r: "run as (drop n s) g = Some (g', rest)"
    by (blast dest: first_some_map_SomeD)
  from 3(3) have "g \<noteq> None \<or> (\<exists>k. Group1Plus k \<in> set as)" by auto
  with 3(1)[OF n r] show ?case .
next
  case (4 k as s g)
  from 4(2) have "first_some (map (\<lambda>n. run as (drop n s) (Some (take n s)))
                     (rev [1 ..< Suc (length (takeWhile k s))])) = Some (g', rest)"
    by (simp only: run.simps)
  then obtain n where n: "n \<in> set (rev [1 ..< Suc (length (takeWhile k s))])"
    and r: "run as (drop n s) (Some (take n s)) = Some (g', rest)"
    by (blast dest: first_some_map_SomeD)
  show ?case by (rule 4(1)[OF n r]) simp
qed

lemma re_search_SomeD:
  "re_search p s = Some r \<Longrightarrow> \<exists>i. i \<le> length s \<and> run p (drop i s) None = Some r"
  unfolding re_search_def by (drule first_some_map_SomeD) (auto intro: less_imp_le)

lemma re_search_group1:
  assumes "re_search p s = Some (g, rest)" and "Group1Plus k \<in> set p"
  shows "\<exists>c. g = Some c"
proof -
  from assms(1) obtain i where "run p (drop i s) None = Some (g, rest)"
    by (auto dest: re_search_SomeD)
  then have "g \<noteq> None" using assms(2) run_group1 by blast
  then show ?thesis by auto
qed

lemma setoff_of_total: "\<exists>so. setoff_of t = Inr so"
proof -
  have a: "Group1Plus setoff_char \<in> set rx_setoff" by (simp add: rx_setoff_def)
  have b: "Group1Plus setoff_char \<in> set rx_setoff_pipe" by (simp add: rx_setoff_pipe_def)
  show ?thesis
    unfolding setoff_of_def
    by (auto split: option.splits simp: group1_strip_title_def
             dest: re_search_group1[OF _ a] re_search_group1[OF _ b])
qed

lemma parse_total:
  "\<exists>so. setoff_of (lower text) = Inr so \<and>
    parse_features_and_tags text =
     Inr \<lparr> approach = approach_of (lower text), fwo = fwo_of (lower text), setoff = so,
           cond_557c = cond_557c_of (lower text), clause = clause_of (lower text),
           label = short_label text \<rparr>"
proof -
  obtain so where "setoff_of (lower text) = Inr so" using setoff_of_total by blast
  then show ?thesis by (simp add: parse_features_and_tags_def Let_def)
qed

lemma first_some_map_neqI:
  "n \<in> set ns \<Longrightarrow> f n \<noteq> None \<Longrightarrow> first_some (map f ns) \<noteq> None"
proof
  assume a: "n \<in> set ns" "f n \<noteq> None" and b: "first_some (map f ns) = None"
  from a(1) have "f n \<in> set (map f ns)" by simp
  with b have "f n = None" by (rule first_some_NoneD)
  with a(2) show False by simp
qed

lemma run_append_prefix: "run (as @ bs) s g \<noteq> None \<Longrightarrow> run as s g \<noteq> None"
proof (induction as s g rule: run.induct)
  case (1 s g)
  then show ?case by simp
next
  case (2 c as s g)
  then show ?case by (cases s) (auto split: if_splits)
next
  case (3 k as s g)
  let ?ns = "rev [0 ..< Suc (length (takeWhile k s))]"
  from 3(2) obtain r where "first_some (map (\<lambda>n. run (as @ bs) (drop n s) g) ?ns) = Some r"
    by (auto simp only: run.simps append_Cons)
  then obtain n where n: "n \<in> set ?ns" and r: "run (as @ bs) (drop n s) g = Some r"
    by (blast dest: first_some_map_SomeD)
  from r have "run as (drop n s) g \<noteq> None" by (intro 3(1)[OF n]) simp
  with n have "first_some (map (\<lambda>n. run as (drop n s) g) ?ns) \<noteq> None"
    by (rule first_some_map_neqI)
  then show ?case unfolding run.simps .
next
  case (4 k as s g)
  let ?ns = "rev [1 ..< Suc (length (takeWhile k s))]"
  from 4(2) obtain r where
    "first_some (map (\<lambda>n. run (as @ bs) (drop n s) (Some (take n s))) ?ns) = Some r"
    by (auto simp only: run.simps append_Cons)
  then obtain n where n: "n \<in> set ?ns"
    and r: "run (as @ bs) (drop n s) (Some (take n s)) = Some r"
    by (blast dest: first_some_map_SomeD)
  from r have "run as (drop n s) (Some (take n s)) \<noteq> None" by (intro 4(1)[OF n]) simp
  with n have "first_some (map (\<lambda>n. run as (drop n s) (Some (take n s))) ?ns) \<noteq> None"
    by (rule first_some_map_neqI)
  then show ?case unfolding run.simps .
qed

lemma first_some_map_None_iff:
  "first_some (map f ns) = None \<longleftrightarrow> (\<forall>n\<in>set ns. f n = None)"
proof (induction ns)
  case Nil
  then show ?case by simp
next
  case (Cons a ns)
  then show ?case by (cases "f a") simp_all
qed

lemma re_search_append_prefix:
  assumes "re_search p s = None" shows "re_search (p @ q) s = None"
  using assms run_append_prefix[of p q _ None]
  unfolding re_search_def first_some_map_None_iff by blast

lemma rx_setoff_pipe_redundant:
  assumes "re_search rx_setoff t = None" shows "re_search rx_setoff_pipe t = None"
proof -
  have e: "rx_setoff_pipe = rx_setoff @ [Star is_space, Chr (CHR ''|'')]"
    by (simp add: rx_setoff_pipe_def rx_setoff_def)
  show ?thesis unfolding e using assms by (rule re_search_append_prefix)
qed

lemma setoff_of_single:
  "setoff_of t =
     (if contains ''set-off'' t then
        (case re_search rx_setoff t of
           None \<Rightarrow> Inr (setoff_keywords t)
         | Some (g, rest) \<Rightarrow> group1_strip_title g)
      else Inr ''Unknown'')"
proof (cases "re_search rx_setoff t")
  case None
  then show ?thesis by (simp add: setoff_of_def rx_setoff_pipe_redundant)
next
  case (Some a)
  then show ?thesis by (cases a) (simp add: setoff_of_def)
qed

lemma contains_trans: "contains p q \<Longrightarrow> contains q s \<Longrightarrow> contains p s"
  unfolding contains_sublist by (rule sublist_order.order.trans)

lemma annual_in_biannual:
  "contains ''bi annual'' t \<or> contains ''bi-annual'' t \<or> contains ''biannual'' t
     \<Longrightarrow> contains ''annual'' t"
proof -
  have a: "contains ''annual'' ''bi annual''" by code_simp
  have b: "contains ''annual'' ''bi-annual''" by code_simp
  have c: "contains ''annual'' ''biannual''" by code_simp
  assume "contains ''bi annual'' t \<or> contains ''bi-annual'' t \<or> contains ''biannual'' t"
  then show ?thesis using contains_trans[OF a] contains_trans[OF b] contains_trans[OF c] by blast
qed

lemma setoff_keywords_simp:
  "setoff_keywords t =
     (if contains ''pay period'' t then ''Pay Period''
      else if contains ''annual'' t then ''Annual'' else ''Unknown'')"
  using annual_in_biannual[of t] by (auto simp: setoff_keywords_def)

lemma run_literal:
  "run (map Chr lit @ as) s g = (if prefix lit s then run as (drop (length lit) s) g else None)"
proof (induction lit arbitrary: s)
  case Nil
  then show ?case by simp
next
  case (Cons a lit)
  then show ?case by (cases s) auto
qed

lemma re_search_setoff_contains:
  assumes "re_search rx_setoff t = Some r" shows "contains ''set-off'' t"
proof -
  from assms obtain i where "run rx_setoff (drop i t) None = Some r"
    by (blast dest: re_search_SomeD)
  then have "prefix ''set-off'' (drop i t)"
    unfolding rx_setoff_def run_literal by (cases "prefix ''set-off'' (drop i t)") simp_all
  then have "sublist ''set-off'' (drop i t)" by (rule prefix_imp_sublist)
  then have "sublist ''set-off'' t" using sublist_drop sublist_order.order.trans by blast
  then show ?thesis by (simp only: contains_sublist)
qed

lemma take_within_takeWhile:
  assumes "n \<le> length (takeWhile P xs)" and "x \<in> set (take n xs)"
  shows "P x"
proof -
  have "take n xs = take n (takeWhile P xs @ dropWhile P xs)" by simp
  also have "\<dots> = take n (takeWhile P xs)" using assms(1) by (simp only: take_append) simp
  finally have "x \<in> set (takeWhile P xs)" using assms(2) by (auto dest: in_set_takeD)
  then show ?thesis by (rule set_takeWhileD[THEN conjunct2])
qed

text \<open>The text of group 1 consists of characters of the group's class.\<close>

lemma run_capture_class:
  "run as s g = Some (Some c, rest) \<Longrightarrow> g = None \<or> (\<exists>c0. g = Some c0 \<and> list_all K c0)
     \<Longrightarrow> list_all (group_class_within K) as \<Longrightarrow> list_all K c"
proof (induction as s g rule: run.induct)
  case (1 s g)
  then show ?case by auto
next
  case (2 ch as s g)
  from 2(4) have as: "list_all (group_class_within K) as" by simp
  show ?case
  proof (cases s)
    case Nil
    with 2(2) show ?thesis by simp
  next
    case (Cons x xs)
    with 2(2) have x: "x = ch" and r: "run as xs g = Some (Some c, rest)"
      by (simp_all split: if_splits)
    from 2(1)[OF Cons x r 2(3) as] show ?thesis .
  qed
next
  case (3 k as s g)
  from 3(2) have "first_some (map (\<lambda>n. run as (drop n s) g)
                     (rev [0 ..< Suc (length (takeWhile k s))])) = Some (Some c, rest)"
    by (simp only: run.simps)
  then obtain n where n: "n \<in> set (rev [0 ..< Suc (length (takeWhile k s))])"
    and r: "run as (drop n s) g = Some (Some c, rest)"
    by (blast dest: first_some_map_SomeD)
  from 3(4) have as: "list_all (group_class_within K) as" by simp
  from 3(1)[OF n r 3(3) as] show ?case .
next
  case (4 k as s g)
  from 4(2) have "first_some (map (\<lambda>n. run as (drop n s) (Some (take n s)))
                     (rev [1 ..< Suc (length (takeWhile k s))])) = Some (Some c, rest)"
    by (simp only: run.simps)
  then obtain n where n: "n \<in> set (rev [1 ..< Suc (length (takeWhile k s))])"
    and r: "run as (drop n s) (Some (take n s)) = Some (Some c, rest)"
    by (blast dest: first_some_map_SomeD)
  from 4(4) have gk: "group_class_within K (Group1Plus k)"
    and as: "list_all (group_class_within K) as" by simp_all
  from gk have kK: "\<And>x. k x \<Longrightarrow> K x" by (simp add: group_class_within_def)
  from n have "n < Suc (length (takeWhile k s))" by (simp only: set_rev set_upt) simp
  then have "n \<le> length (takeWhile k s)" by simp
  then have "\<And>x. x \<in> set (take n s) \<Longrightarrow> k x" by (rule take_within_takeWhile)
  with kK have "list_all K (take n s)" unfolding list_all_iff by blast
  then have "Some (take n s) = None \<or> (\<exists>c0. Some (take n s) = Some c0 \<and> list_all K c0)"
    by simp
  from 4(1)[OF n r this as] show ?case .
qed

lemma setoff_capture_chars:
  assumes "re_search rx_setoff t = Some (Some c, rest)"
  shows "list_all setoff_char c"
proof -
  from assms obtain i where r: "run rx_setoff (drop i t) None = Some (Some c, rest)"
    by (blast dest: re_search_SomeD)
  have k: "list_all (group_class_within setoff_char) rx_setoff"
    by (simp add: rx_setoff_def group_class_within_def)
  show ?thesis by (rule run_capture_class[OF r _ k]) simp
qed

text \<open>The capturing group takes at least one character.\<close>

lemma run_capture_nonempty:
  "run as s g = Some (Some c, rest) \<Longrightarrow> g = None \<or> (\<exists>c0. g = Some c0 \<and> c0 \<noteq> [])
     \<Longrightarrow> c \<noteq> []"
proof (induction as s g rule: run.induct)
  case (1 s g)
  then show ?case by auto
next
  case (2 ch as s g)
  show ?case
  proof (cases s)
    case Nil
    with 2(2) show ?thesis by simp
  next
    case (Cons x xs)
    with 2(2) have x: "x = ch" and r: "run as xs g = Some (Some c, rest)"
      by (simp_all split: if_splits)
    from 2(1)[OF Cons x r 2(3)] show ?thesis .
  qed
next
  case (3 k as s g)
  from 3(2) have "first_some (map (\<lambda>n. run as (drop n s) g)
                     (rev [0 ..< Suc (length (takeWhile k s))])) = Some (Some c, rest)"
    by (simp only: run.simps)
  then obtain n where n: "n \<in> set (rev [0 ..< Suc (length (takeWhile k s))])"
    and r: "run as (drop n s) g = Some (Some c, rest)"
    by (blast dest: first_some_map_SomeD)
  from 3(1)[OF n r 3(3)] show ?case .
next
  case (4 k as s g)
  from 4(2) have "first_some (map (\<lambda>n. run as (drop n s) (Some (take n s)))
                     (rev [1 ..< Suc (length (takeWhile k s))])) = Some (Some c, rest)"
    by (simp only: run.simps)
  then obtain n where n: "n \<in> set (rev [1 ..< Suc (length (takeWhile k s))])"
    and r: "run as (drop n s) (Some (take n s)) = Some (Some c, rest)"
    by (blast dest: first_some_map_SomeD)
  from n have n1: "1 \<le> n" and nm: "n < Suc (length (takeWhile k s))"
    by (simp_all only: set_rev set_upt) simp_all
  have "length (takeWhile k s) \<le> length s" by (rule length_takeWhile_le)
  with n1 nm have "s \<noteq> []" by auto
  with n1 have "take n s \<noteq> []" by (cases s; cases n) simp_all
  then have "Some (take n s) = None \<or> (\<exists>c0. Some (take n s) = Some c0 \<and> c0 \<noteq> [])"
    by simp
  from 4(1)[OF n r this] show ?case .
qed

lemma setoff_capture_nonempty:
  assumes "re_search rx_setoff t = Some (Some c, rest)"
  shows "c \<noteq> []"
proof -
  from assms obtain i where r: "run rx_setoff (drop i t) None = Some (Some c, rest)"
    by (blast dest: re_search_SomeD)
  show ?thesis by (rule run_capture_nonempty[OF r]) simp
qed

section \<open>Facts about stripping and the pipe pattern\<close>

lemma pipe_not_space: "\<not> is_space (CHR ''|'')"
  by (simp add: is_space_def)

lemma blank_is_space: "is_space (CHR '' '')"
  by (simp add: is_space_def)

lemma run_star_end: "run [Star k] s g = Some (g, dropWhile k s)"
  by (simp add: dropWhile_eq_drop)

lemma run_chr_None: "k (hd s) \<Longrightarrow> \<not> k c \<Longrightarrow> s \<noteq> [] \<Longrightarrow> run (Chr c # as) s g = None"
  by (cases s) auto

lemma run_star_chr:
  assumes "\<not> k c"
  shows "run (Star k # Chr c # as) s g = run (Chr c # as) (dropWhile k s) g"
proof -
  let ?m = "length (takeWhile k s)"
  let ?f = "\<lambda>n. run (Chr c # as) (drop n s) g"
  have low: "?f n = None" if "n \<in> set (rev [0 ..< ?m])" for n
  proof -
    from that have n: "n < ?m" by simp
    then have ns: "n < length s" using length_takeWhile_le[of k s] by simp
    have "takeWhile k s ! n \<in> set (takeWhile k s)" using n by simp
    then have "k (takeWhile k s ! n)" by (rule set_takeWhileD[THEN conjunct2])
    then have "k (s ! n)" using n by (simp add: takeWhile_nth)
    moreover have "drop n s = s ! n # drop (Suc n) s" using ns by (simp add: Cons_nth_drop_Suc)
    ultimately show ?thesis using assms by auto
  qed
  have "run (Star k # Chr c # as) s g = first_some (?f ?m # map ?f (rev [0 ..< ?m]))"
    by simp
  also have "\<dots> = ?f ?m"
  proof (cases "?f ?m")
    case None
    have "first_some (map ?f (rev [0 ..< ?m])) = None"
      unfolding first_some_map_None_iff using low by blast
    with None show ?thesis by simp
  next
    case (Some a)
    then show ?thesis by simp
  qed
  finally show ?thesis by (simp add: dropWhile_eq_drop)
qed

lemma run_rx_pipe:
  "run rx_pipe s None =
     (if pipe_next s then Some (None, lstrip (tl (lstrip s))) else None)"
proof -
  have "run rx_pipe s None = run [Chr (CHR ''|''), Star is_space] (lstrip s) None"
    unfolding rx_pipe_def lstrip_def by (rule run_star_chr[of is_space "CHR ''|''", OF pipe_not_space])
  also have "\<dots> = (if pipe_next s then Some (None, lstrip (tl (lstrip s))) else None)"
  proof (cases "lstrip s")
    case Nil
    then show ?thesis by (simp add: pipe_next_def)
  next
    case (Cons c cs)
    have "run [Star is_space] cs None = Some (None, lstrip cs)"
      unfolding lstrip_def by (rule run_star_end)
    with Cons show ?thesis by (simp add: pipe_next_def del: run.simps(3))
  qed
  finally show ?thesis .
qed

lemma length_lstrip_le: "length (lstrip s) \<le> length s"
  unfolding lstrip_def by (rule length_dropWhile_le)

lemma pipe_next_shorter: "pipe_next s \<Longrightarrow> length (lstrip (tl (lstrip s))) < length s"
proof -
  assume "pipe_next s"
  then obtain cs where c: "lstrip s = CHR ''|'' # cs"
    by (auto simp: pipe_next_def split: list.splits)
  have "length (lstrip cs) \<le> length cs" by (rule length_lstrip_le)
  also have "\<dots> < length (lstrip s)" using c by simp
  also have "\<dots> \<le> length s" by (rule length_lstrip_le)
  finally show ?thesis using c by simp
qed

lemma sub_pipes_Nil: "sub_pipes [] = []"
  by (simp add: sub_pipes_def re_sub.simps run_rx_pipe pipe_next_def lstrip_def)

lemma sub_pipes_match:
  "pipe_next s \<Longrightarrow> sub_pipes s = '' | '' @ sub_pipes (lstrip (tl (lstrip s)))"
  unfolding sub_pipes_def
  by (subst re_sub.simps) (simp add: run_rx_pipe pipe_next_shorter)

lemma sub_pipes_copy:
  "\<not> pipe_next (x # xs) \<Longrightarrow> sub_pipes (x # xs) = x # sub_pipes xs"
  unfolding sub_pipes_def
  by (subst re_sub.simps) (simp add: run_rx_pipe)

lemma all_space_iff: "all_space s \<longleftrightarrow> (\<forall>c\<in>set s. is_space c)"
  by (simp add: all_space_def dropWhile_eq_Nil_conv)

lemma lstrip_Nil: "lstrip [] = []"
  by (simp add: lstrip_def)

lemma rstrip_Nil: "rstrip [] = []"
  by (simp add: rstrip_def)

lemma lstrip_Cons: "lstrip (x # xs) = (if is_space x then lstrip xs else x # xs)"
  by (simp add: lstrip_def)

lemma lstrip_idem: "lstrip (lstrip s) = lstrip s"
  by (simp add: lstrip_def dropWhile_idem)

lemma lstrip_all_space: "all_space s \<Longrightarrow> lstrip s = []"
  by (simp add: all_space_def lstrip_def)

lemma lstrip_append_space: "all_space w \<Longrightarrow> lstrip (w @ s) = lstrip s"
  by (simp add: all_space_iff lstrip_def dropWhile_append)

lemma lstrip_head: "lstrip s = c # cs \<Longrightarrow> \<not> is_space c"
  unfolding lstrip_def using hd_dropWhile[of is_space s] by auto

lemma rstrip_Cons:
  "rstrip (x # xs) = (if all_space (x # xs) then [] else x # rstrip xs)"
proof (cases "all_space xs")
  case True
  then have "dropWhile is_space (rev xs) = []"
    by (simp add: all_space_iff dropWhile_eq_Nil_conv)
  then show ?thesis using True
    by (simp add: rstrip_def dropWhile_append all_space_iff)
next
  case False
  then have "\<not> (\<forall>c\<in>set (rev xs). is_space c)" by (simp add: all_space_iff)
  then show ?thesis using False
    by (auto simp: rstrip_def dropWhile_append all_space_iff)
qed

lemma rstrip_nonspace_Cons: "\<not> is_space x \<Longrightarrow> rstrip (x # xs) = x # rstrip xs"
  by (simp add: rstrip_Cons all_space_iff)

lemma rstrip_all_space: "all_space s \<Longrightarrow> rstrip s = []"
  by (simp add: rstrip_def all_space_iff dropWhile_eq_Nil_conv)

lemma dropWhile_append_keep:
  "dropWhile P xs \<noteq> [] \<Longrightarrow> dropWhile P (xs @ ys) = dropWhile P xs @ ys"
  by (auto simp: dropWhile_append dropWhile_eq_Nil_conv)

lemma rstrip_append_rstrip: "rstrip (p @ rstrip y) = rstrip (p @ y)"
proof (cases "dropWhile is_space (rev y) = []")
  case True
  then have r: "rstrip y = []" by (simp add: rstrip_def)
  from True have "dropWhile is_space (rev y @ rev p) = dropWhile is_space (rev p)"
    by (auto simp: dropWhile_append dropWhile_eq_Nil_conv)
  then have "rstrip (p @ y) = rstrip p" by (simp add: rstrip_def)
  then show ?thesis by (simp add: r)
next
  case False
  let ?d = "dropWhile is_space (rev y)"
  from False have "\<not> is_space (hd ?d)" by (rule hd_dropWhile)
  with False have "dropWhile is_space ?d = ?d" by (cases ?d) simp_all
  with False have "dropWhile is_space (?d @ rev p) = ?d @ rev p"
    by (simp add: dropWhile_append_keep)
  moreover from False have "dropWhile is_space (rev y @ rev p) = ?d @ rev p"
    by (rule dropWhile_append_keep)
  ultimately show ?thesis by (simp add: rstrip_def)
qed

lemma lstrip_rstrip: "lstrip (rstrip s) = rstrip (lstrip s)"
proof (induction s)
  case Nil
  then show ?case by (simp add: lstrip_Nil rstrip_Nil)
next
  case (Cons x xs)
  show ?case
  proof (cases "all_space (x # xs)")
    case True
    then show ?thesis by (simp add: rstrip_all_space lstrip_all_space lstrip_Nil rstrip_Nil)
  next
    case False
    then show ?thesis using Cons
      by (auto simp: rstrip_Cons lstrip_Cons all_space_iff)
  qed
qed

lemma pipe_next_Cons_space: "is_space x \<Longrightarrow> pipe_next (x # xs) = pipe_next xs"
  by (simp add: pipe_next_def lstrip_Cons)

lemma pipe_next_Cons_nonspace: "\<not> is_space x \<Longrightarrow> pipe_next (x # xs) = (x = CHR ''|'')"
  by (simp add: pipe_next_def lstrip_Cons)

lemma pipe_next_Nil: "\<not> pipe_next []"
  by (simp add: pipe_next_def lstrip_Nil)

lemma pipe_next_lstrip: "pipe_next (lstrip s) = pipe_next s"
  by (simp add: pipe_next_def lstrip_idem)

lemma pipe_next_rstrip: "pipe_next (rstrip s) = pipe_next s"
proof (cases "lstrip s")
  case Nil
  then show ?thesis by (simp add: pipe_next_def lstrip_rstrip rstrip_Nil)
next
  case (Cons c cs)
  then have "\<not> is_space c" by (rule lstrip_head)
  with Cons show ?thesis by (simp add: pipe_next_def lstrip_rstrip rstrip_nonspace_Cons)
qed

lemma pipe_rest_rstrip:
  assumes "pipe_next s"
  shows "lstrip (tl (lstrip (rstrip s))) = rstrip (lstrip (tl (lstrip s)))"
proof -
  from assms obtain cs where c: "lstrip s = CHR ''|'' # cs"
    by (auto simp: pipe_next_def split: list.splits)
  then show ?thesis
    by (simp add: lstrip_rstrip rstrip_nonspace_Cons pipe_not_space)
qed

lemma sub_pipes_induct [case_names Nil match copy]:
  assumes "P []"
    and "\<And>s. pipe_next s \<Longrightarrow> P (lstrip (tl (lstrip s))) \<Longrightarrow> P s"
    and "\<And>x xs. \<not> pipe_next (x # xs) \<Longrightarrow> P xs \<Longrightarrow> P (x # xs)"
  shows "P s"
proof (induction s rule: length_induct)
  case (1 s)
  show ?case
  proof (cases "pipe_next s")
    case True
    then show ?thesis using 1 assms(2) pipe_next_shorter by blast
  next
    case False
    then show ?thesis using 1 assms(1,3) by (cases s) auto
  qed
qed

lemma sub_pipes_lstrip_match: "pipe_next s \<Longrightarrow> sub_pipes (lstrip s) = sub_pipes s"
proof -
  assume p: "pipe_next s"
  then have "pipe_next (lstrip s)" by (simp add: pipe_next_lstrip)
  then have "sub_pipes (lstrip s) = '' | '' @ sub_pipes (lstrip (tl (lstrip (lstrip s))))"
    by (rule sub_pipes_match)
  with p show ?thesis by (simp add: lstrip_idem sub_pipes_match)
qed

lemma sub_pipes_leading_space:
  "\<not> pipe_next s \<Longrightarrow> sub_pipes s = takeWhile is_space s @ sub_pipes (lstrip s)"
proof (induction s)
  case Nil
  then show ?case by (simp add: lstrip_Nil)
next
  case (Cons x xs)
  show ?case
  proof (cases "is_space x")
    case True
    with Cons.prems have "\<not> pipe_next xs" by (simp add: pipe_next_Cons_space)
    then have "sub_pipes xs = takeWhile is_space xs @ sub_pipes (lstrip xs)" by (rule Cons.IH)
    with True Cons.prems show ?thesis by (simp add: sub_pipes_copy lstrip_Cons)
  next
    case False
    then show ?thesis by (simp add: lstrip_Cons)
  qed
qed

lemma sub_pipes_all_space: "all_space s \<Longrightarrow> sub_pipes s = s"
proof -
  assume a: "all_space s"
  then have l: "lstrip s = []" by (rule lstrip_all_space)
  then have "\<not> pipe_next s" by (simp add: pipe_next_def)
  then have "sub_pipes s = takeWhile is_space s @ sub_pipes (lstrip s)"
    by (rule sub_pipes_leading_space)
  with a l show ?thesis by (simp add: sub_pipes_Nil all_space_iff)
qed

lemma pipe_next_sub_pipes: "pipe_next (sub_pipes s) = pipe_next s"
proof (cases "pipe_next s")
  case True
  then have "sub_pipes s = '' | '' @ sub_pipes (lstrip (tl (lstrip s)))" by (rule sub_pipes_match)
  with True show ?thesis by (simp add: pipe_next_def lstrip_Cons blank_is_space pipe_not_space)
next
  case False
  then have e: "sub_pipes s = takeWhile is_space s @ sub_pipes (lstrip s)"
    by (rule sub_pipes_leading_space)
  have w: "all_space (takeWhile is_space s)"
    by (auto simp: all_space_iff dest: set_takeWhileD)
  have "\<not> pipe_next (sub_pipes (lstrip s))"
  proof (cases "lstrip s")
    case Nil
    then show ?thesis by (simp add: sub_pipes_Nil pipe_next_Nil)
  next
    case (Cons c cs)
    then have ns: "\<not> is_space c" by (rule lstrip_head)
    from False Cons have np: "c \<noteq> CHR ''|''" by (simp add: pipe_next_def)
    with ns have "\<not> pipe_next (c # cs)" by (simp add: pipe_next_Cons_nonspace)
    then have "sub_pipes (c # cs) = c # sub_pipes cs" by (rule sub_pipes_copy)
    with Cons ns np show ?thesis by (simp add: pipe_next_Cons_nonspace)
  qed
  then have "\<not> pipe_next (sub_pipes s)"
    unfolding e pipe_next_def by (simp add: lstrip_append_space[OF w])
  with False show ?thesis by simp
qed

lemma sub_pipes_lstrip_fixed:
  assumes "sub_pipes x = x" and "x = [] \<or> \<not> is_space (hd x) \<or> pipe_next x"
  shows "sub_pipes (lstrip x) = x"
proof (cases "pipe_next x")
  case True
  then show ?thesis using assms(1) by (simp add: sub_pipes_lstrip_match)
next
  case False
  with assms(2) have "lstrip x = x" by (cases x) (auto simp: lstrip_Nil lstrip_Cons)
  with assms(1) show ?thesis by simp
qed

lemma sub_pipes_head:
  assumes "u = [] \<or> \<not> is_space (hd u)"
  shows "sub_pipes u = [] \<or> \<not> is_space (hd (sub_pipes u)) \<or> pipe_next (sub_pipes u)"
proof (cases u)
  case Nil
  then show ?thesis by (simp add: sub_pipes_Nil)
next
  case (Cons c cs)
  with assms have ns: "\<not> is_space c" by simp
  show ?thesis
  proof (cases "pipe_next u")
    case True
    then show ?thesis by (simp add: pipe_next_sub_pipes)
  next
    case False
    with Cons have "sub_pipes u = c # sub_pipes cs" by (simp add: sub_pipes_copy)
    with ns show ?thesis by simp
  qed
qed

lemma sub_pipes_idem: "sub_pipes (sub_pipes s) = sub_pipes s"
proof (induction s rule: sub_pipes_induct)
  case Nil
  then show ?case by (simp add: sub_pipes_Nil)
next
  case (match s)
  let ?u = "lstrip (tl (lstrip s))"
  have e: "sub_pipes s = '' | '' @ sub_pipes ?u" using match(1) by (rule sub_pipes_match)
  have pn: "pipe_next ('' | '' @ sub_pipes ?u)"
    by (simp add: pipe_next_def lstrip_Cons blank_is_space pipe_not_space)
  have hu: "?u = [] \<or> \<not> is_space (hd ?u)"
    by (cases ?u) (auto dest: lstrip_head)
  have "sub_pipes (lstrip (sub_pipes ?u)) = sub_pipes ?u"
    using match(2) sub_pipes_head[OF hu] by (rule sub_pipes_lstrip_fixed)
  then have "sub_pipes ('' | '' @ sub_pipes ?u) = '' | '' @ sub_pipes ?u"
    using sub_pipes_match[OF pn] by (simp add: lstrip_Cons blank_is_space pipe_not_space)
  then show ?case by (simp add: e)
next
  case (copy x xs)
  have "pipe_next (x # sub_pipes xs) = pipe_next (x # xs)"
    by (cases "is_space x")
       (simp_all add: pipe_next_Cons_space pipe_next_Cons_nonspace pipe_next_sub_pipes)
  with copy show ?case by (simp add: sub_pipes_copy)
qed

lemma lstrip_sub_pipes_lstrip: "lstrip (sub_pipes (lstrip t)) = lstrip (sub_pipes t)"
proof (cases "pipe_next t")
  case True
  then show ?thesis by (simp add: sub_pipes_lstrip_match)
next
  case False
  have w: "all_space (takeWhile is_space t)"
    by (auto simp: all_space_iff dest: set_takeWhileD)
  from False have "sub_pipes t = takeWhile is_space t @ sub_pipes (lstrip t)"
    by (rule sub_pipes_leading_space)
  then show ?thesis by (simp add: lstrip_append_space[OF w])
qed

lemma rstrip_Cons_rstrip: "rstrip (x # rstrip y) = rstrip (x # y)"
  using rstrip_append_rstrip[of "[x]" y] by simp

lemma rstrip_sub_pipes_rstrip: "rstrip (sub_pipes (rstrip t)) = rstrip (sub_pipes t)"
proof (induction t rule: sub_pipes_induct)
  case Nil
  then show ?case by (simp add: rstrip_Nil)
next
  case (match s)
  let ?u = "lstrip (tl (lstrip s))"
  have "pipe_next (rstrip s)" using match(1) by (simp add: pipe_next_rstrip)
  then have "sub_pipes (rstrip s) = '' | '' @ sub_pipes (lstrip (tl (lstrip (rstrip s))))"
    by (rule sub_pipes_match)
  then have "sub_pipes (rstrip s) = '' | '' @ sub_pipes (rstrip ?u)"
    by (simp add: pipe_rest_rstrip[OF match(1)])
  then have "rstrip (sub_pipes (rstrip s)) = rstrip ('' | '' @ rstrip (sub_pipes (rstrip ?u)))"
    by (simp only: rstrip_append_rstrip)
  also have "\<dots> = rstrip ('' | '' @ rstrip (sub_pipes ?u))" by (simp only: match(2))
  also have "\<dots> = rstrip ('' | '' @ sub_pipes ?u)" by (simp only: rstrip_append_rstrip)
  also have "\<dots> = rstrip (sub_pipes s)" using sub_pipes_match[OF match(1)] by simp
  finally show ?case .
next
  case (copy x xs)
  show ?case
  proof (cases "all_space (x # xs)")
    case True
    then show ?thesis by (simp add: rstrip_all_space sub_pipes_all_space sub_pipes_Nil rstrip_Nil)
  next
    case False
    then have r: "rstrip (x # xs) = x # rstrip xs" by (simp add: rstrip_Cons)
    have "\<not> pipe_next (rstrip (x # xs))" using copy(1) by (simp add: pipe_next_rstrip)
    then have "sub_pipes (x # rstrip xs) = x # sub_pipes (rstrip xs)"
      unfolding r by (rule sub_pipes_copy)
    then have "rstrip (sub_pipes (rstrip (x # xs))) = rstrip (x # rstrip (sub_pipes (rstrip xs)))"
      by (simp only: r rstrip_Cons_rstrip)
    also have "\<dots> = rstrip (x # rstrip (sub_pipes xs))" by (simp only: copy(2))
    also have "\<dots> = rstrip (x # sub_pipes xs)" by (simp only: rstrip_Cons_rstrip)
    also have "\<dots> = rstrip (sub_pipes (x # xs))" using sub_pipes_copy[OF copy(1)] by simp
    finally show ?thesis .
  qed
qed

lemma strip_sub_pipes_strip: "strip (sub_pipes (strip t)) = strip (sub_pipes t)"
proof -
  have "strip (sub_pipes (strip t)) = lstrip (rstrip (sub_pipes (rstrip (lstrip t))))"
    by (simp add: strip_def lstrip_rstrip)
  also have "\<dots> = lstrip (rstrip (sub_pipes (lstrip t)))"
    by (simp only: rstrip_sub_pipes_rstrip)
  also have "\<dots> = rstrip (lstrip (sub_pipes (lstrip t)))" by (simp only: lstrip_rstrip)
  also have "\<dots> = rstrip (lstrip (sub_pipes t))" by (simp only: lstrip_sub_pipes_lstrip)
  finally show ?thesis by (simp add: strip_def)
qed

lemma strip_sub_pipes_idem:
  "strip (sub_pipes (strip (sub_pipes s))) = strip (sub_pipes s)"
  by (simp only: strip_sub_pipes_strip sub_pipes_idem)

section \<open>Facts about the label\<close>

lemma replace_str_Nil: "old \<noteq> [] \<Longrightarrow> replace_str old new [] = []"
  by (simp add: replace_str.simps)

lemma replace_str_hit:
  "old \<noteq> [] \<Longrightarrow> prefix old s \<Longrightarrow>
     replace_str old new s = new @ replace_str old new (drop (length old) s)"
  by (subst replace_str.simps) simp

lemma replace_str_copy:
  "old \<noteq> [] \<Longrightarrow> \<not> prefix old (x # xs) \<Longrightarrow>
     replace_str old new (x # xs) = x # replace_str old new xs"
  by (subst replace_str.simps) simp

lemma replace_str_absent:
  "old \<noteq> [] \<Longrightarrow> \<not> contains old s \<Longrightarrow> replace_str old new s = s"
  by (induction s) (simp_all add: replace_str_Nil replace_str_copy)

text \<open>The head of a replaced text, when the text starts with the misspelling.\<close>

lemma replace_apporach_hit:
  assumes "prefix ''Apporach'' v"
  shows "\<exists>r. replace_str ''Apporach'' ''Approach'' v = CHR ''A'' # r"
proof -
  have "replace_str ''Apporach'' ''Approach'' v =
          ''Approach'' @ replace_str ''Apporach'' ''Approach'' (drop (length ''Apporach'') v)"
    using assms by (intro replace_str_hit) simp_all
  then show ?thesis by simp
qed

lemma prefix_replace_apporach:
  "\<forall>c\<in>set q. c \<noteq> CHR ''A'' \<Longrightarrow> prefix q (replace_str ''Apporach'' ''Approach'' v)
     \<Longrightarrow> prefix q v"
proof (induction q arbitrary: v)
  case Nil
  then show ?case by simp
next
  case (Cons a q)
  from Cons.prems(1) have a: "a \<noteq> CHR ''A''" and q: "\<forall>c\<in>set q. c \<noteq> CHR ''A''" by simp_all
  show ?case
  proof (cases "prefix ''Apporach'' v")
    case True
    then obtain r where "replace_str ''Apporach'' ''Approach'' v = CHR ''A'' # r"
      using replace_apporach_hit by blast
    with Cons.prems(2) a show ?thesis by simp
  next
    case False
    show ?thesis
    proof (cases v)
      case Nil
      with Cons.prems(2) show ?thesis by (simp add: replace_str_Nil)
    next
      case (Cons c xs)
      with False have "replace_str ''Apporach'' ''Approach'' v =
                         c # replace_str ''Apporach'' ''Approach'' xs"
        by (simp add: replace_str_copy)
      with Cons.prems(2) have ac: "a = c"
        and p: "prefix q (replace_str ''Apporach'' ''Approach'' xs)" by simp_all
      from q p have "prefix q xs" by (rule Cons.IH)
      with ac Cons show ?thesis by simp
    qed
  qed
qed

lemma prefix_ConsD: "prefix (a # p) (c # r) \<Longrightarrow> a = c \<and> prefix p r"
  by simp

lemma contains_after_approach:
  "contains ''Apporach'' (''Approach'' @ y) = contains ''Apporach'' y"
  by simp

lemma no_apporach_after_replace:
  "\<not> contains ''Apporach'' (replace_str ''Apporach'' ''Approach'' s)"
proof (induction s rule: length_induct)
  case (1 s)
  show ?case
  proof (cases "prefix ''Apporach'' s")
    case True
    then have l: "length (drop (length ''Apporach'') s) < length s" by (auto simp: prefix_def)
    from True have e: "replace_str ''Apporach'' ''Approach'' s =
                 ''Approach'' @ replace_str ''Apporach'' ''Approach'' (drop (length ''Apporach'') s)"
      by (intro replace_str_hit) simp_all
    from 1 l have "\<not> contains ''Apporach''
        (replace_str ''Apporach'' ''Approach'' (drop (length ''Apporach'') s))" by blast
    then show ?thesis unfolding e contains_after_approach .
  next
    case False
    show ?thesis
    proof (cases s)
      case Nil
      then show ?thesis by (simp add: replace_str_Nil)
    next
      case (Cons c xs)
      with False have e: "replace_str ''Apporach'' ''Approach'' s =
                         c # replace_str ''Apporach'' ''Approach'' xs"
        by (simp add: replace_str_copy)
      have t: "\<not> contains ''Apporach'' (replace_str ''Apporach'' ''Approach'' xs)"
        using 1 Cons by simp
      have h: "\<not> prefix ''Apporach'' (c # replace_str ''Apporach'' ''Approach'' xs)"
      proof
        assume "prefix ''Apporach'' (c # replace_str ''Apporach'' ''Approach'' xs)"
        then have cp: "CHR ''A'' = c \<and>
            prefix ''pporach'' (replace_str ''Apporach'' ''Approach'' xs)"
          by (rule prefix_ConsD)
        then have c: "c = CHR ''A''" by blast
        from cp have p: "prefix ''pporach'' (replace_str ''Apporach'' ''Approach'' xs)"
          by blast
        have "\<forall>c\<in>set ''pporach''. c \<noteq> CHR ''A''" by simp
        then have "prefix ''pporach'' xs" using p by (rule prefix_replace_apporach)
        then have "prefix ''Apporach'' (CHR ''A'' # xs)" by simp
        with False Cons c show False by simp
      qed
      show ?thesis unfolding e contains.simps using t h by blast
    qed
  qed
qed

lemma prefix_sub_pipes:
  "\<forall>c\<in>set q. \<not> is_space c \<and> c \<noteq> CHR ''|'' \<Longrightarrow> prefix q (sub_pipes v) \<Longrightarrow> prefix q v"
proof (induction q arbitrary: v)
  case Nil
  then show ?case by simp
next
  case (Cons a q)
  from Cons.prems(1) have a: "\<not> is_space a"
    and q: "\<forall>c\<in>set q. \<not> is_space c \<and> c \<noteq> CHR ''|''" by simp_all
  show ?case
  proof (cases "pipe_next v")
    case True
    then have "sub_pipes v = CHR '' '' # (''| '' @ sub_pipes (lstrip (tl (lstrip v))))"
      using sub_pipes_match[of v] by simp
    with Cons.prems(2) have "a = CHR '' ''" by simp
    with a blank_is_space show ?thesis by simp
  next
    case False
    show ?thesis
    proof (cases v)
      case Nil
      with Cons.prems(2) show ?thesis by (simp add: sub_pipes_Nil)
    next
      case (Cons c xs)
      with False have "sub_pipes v = c # sub_pipes xs" by (simp add: sub_pipes_copy)
      with Cons.prems(2) have ac: "a = c" and p: "prefix q (sub_pipes xs)" by simp_all
      from q p have "prefix q xs" by (rule Cons.IH)
      with ac Cons show ?thesis by simp
    qed
  qed
qed

lemma contains_Cons_other:
  "q \<noteq> [] \<Longrightarrow> hd q \<noteq> c \<Longrightarrow> contains q (c # s) = contains q s"
  by (cases q) simp_all

lemma contains_suffix: "contains q (lstrip (tl (lstrip s))) \<Longrightarrow> contains q s"
proof -
  have "sublist (lstrip (tl (lstrip s))) (tl (lstrip s))" unfolding lstrip_def by simp
  also have "sublist (tl (lstrip s)) (lstrip s)"
    by (cases "lstrip s") (simp_all add: sublist_Cons_right)
  also have "sublist (lstrip s) s" unfolding lstrip_def by simp
  finally have "sublist (lstrip (tl (lstrip s))) s" .
  then show "contains q (lstrip (tl (lstrip s))) \<Longrightarrow> contains q s"
    unfolding contains_sublist using sublist_order.order.trans by blast
qed

lemma contains_sub_pipes:
  assumes "q \<noteq> []" and "\<forall>c\<in>set q. \<not> is_space c \<and> c \<noteq> CHR ''|''"
  shows "contains q (sub_pipes s) \<Longrightarrow> contains q s"
proof (induction s rule: sub_pipes_induct)
  case Nil
  then show ?case by (simp add: sub_pipes_Nil)
next
  case (match s)
  from assms have "hd q \<in> set q" by simp
  with assms(2) have "\<not> is_space (hd q)" and h2: "hd q \<noteq> CHR ''|''" by blast+
  then have h1: "hd q \<noteq> CHR '' ''" using blank_is_space by metis
  have "sub_pipes s = CHR '' '' # CHR ''|'' # CHR '' '' # sub_pipes (lstrip (tl (lstrip s)))"
    using sub_pipes_match[OF match(1)] by simp
  with match(3) have "contains q (sub_pipes (lstrip (tl (lstrip s))))"
    by (simp only: contains_Cons_other[OF assms(1) h1] contains_Cons_other[OF assms(1) h2])
  then have "contains q (lstrip (tl (lstrip s)))" by (rule match(2))
  then show ?case by (rule contains_suffix)
next
  case (copy x xs)
  from copy(3) have "prefix q (sub_pipes (x # xs)) \<or> contains q (sub_pipes xs)"
    by (simp add: sub_pipes_copy[OF copy(1)])
  then show ?case
  proof
    assume "prefix q (sub_pipes (x # xs))"
    with assms(2) have "prefix q (x # xs)" by (rule prefix_sub_pipes)
    then show ?thesis by simp
  next
    assume "contains q (sub_pipes xs)"
    then have "contains q xs" by (rule copy(2))
    then show ?thesis by simp
  qed
qed

lemma sublist_strip: "sublist (strip s) s"
proof -
  have "sublist (rstrip (lstrip s)) (lstrip s)"
    unfolding rstrip_def by (simp add: sublist_rev_left)
  also have "sublist (lstrip s) s" unfolding lstrip_def by simp
  finally show ?thesis by (simp add: strip_def)
qed

lemma contains_strip: "contains q (strip s) \<Longrightarrow> contains q s"
  unfolding contains_sublist using sublist_strip sublist_order.order.trans by blast

lemma apporach_chars: "\<forall>c\<in>set ''Apporach''. \<not> is_space c \<and> c \<noteq> CHR ''|''"
  by (simp add: is_space_def)

lemma apporach_nonempty: "''Apporach'' \<noteq> []"
  by simp

lemma no_apporach_in_label: "\<not> contains ''Apporach'' (short_label s)"
proof
  assume "contains ''Apporach'' (short_label s)"
  then have "contains ''Apporach'' (sub_pipes (replace_str ''Apporach'' ''Approach'' s))"
    unfolding short_label_def by (rule contains_strip)
  then have "contains ''Apporach'' (replace_str ''Apporach'' ''Approach'' s)"
    by (rule contains_sub_pipes[OF apporach_nonempty apporach_chars])
  with no_apporach_after_replace show False by blast
qed

lemma short_label_idem: "short_label (short_label s) = short_label s"
proof -
  have n: "\<not> contains ''Apporach'' (short_label s)" by (rule no_apporach_in_label)
  have "replace_str ''Apporach'' ''Approach'' (short_label s) = short_label s"
    using apporach_nonempty n by (rule replace_str_absent)
  then have "short_label (short_label s) = strip (sub_pipes (short_label s))"
    by (subst short_label_def) (simp only:)
  also have "\<dots> = short_label s"
    unfolding short_label_def by (rule strip_sub_pipes_idem)
  finally show ?thesis .
qed

lemma prefix_of_longer:
  assumes "prefix p (ys @ zs)" and "length p \<le> length ys"
  shows "prefix p ys"
proof -
  from assms(1) have "prefix p ys \<or> (\<exists>us. p = ys @ us \<and> prefix us zs)"
    by (simp only: prefix_append)
  then show ?thesis
  proof
    assume "prefix p ys"
    then show ?thesis .
  next
    assume "\<exists>us. p = ys @ us \<and> prefix us zs"
    then obtain us where u: "p = ys @ us" by blast
    with assms(2) have "us = []" by simp
    with u show ?thesis by simp
  qed
qed

lemma replace_first_occurrence:
  "\<not> contains ''Apporach'' (u @ ''Apporac'') \<Longrightarrow>
     replace_str ''Apporach'' ''Approach'' (u @ ''Apporach'' @ v)
       = u @ ''Approach'' @ replace_str ''Apporach'' ''Approach'' v"
proof (induction u)
  case Nil
  have "replace_str ''Apporach'' ''Approach'' (''Apporach'' @ v) =
          ''Approach'' @ replace_str ''Apporach'' ''Approach''
             (drop (length ''Apporach'') (''Apporach'' @ v))"
    by (rule replace_str_hit) simp_all
  then show ?case by simp
next
  case (Cons x u)
  from Cons.prems have np: "\<not> prefix ''Apporach'' ((x # u) @ ''Apporac'')"
    and nc: "\<not> contains ''Apporach'' (u @ ''Apporac'')" by simp_all
  have "\<not> prefix ''Apporach'' (((x # u) @ ''Apporac'') @ (''h'' @ v))"
  proof
    assume "prefix ''Apporach'' (((x # u) @ ''Apporac'') @ (''h'' @ v))"
    then have "prefix ''Apporach'' ((x # u) @ ''Apporac'')"
      by (rule prefix_of_longer) simp
    with np show False by blast
  qed
  then have "\<not> prefix ''Apporach'' (x # (u @ ''Apporach'' @ v))" by simp
  then have "replace_str ''Apporach'' ''Approach'' (x # (u @ ''Apporach'' @ v))
               = x # replace_str ''Apporach'' ''Approach'' (u @ ''Apporach'' @ v)"
    by (intro replace_str_copy) simp_all
  also have "\<dots> = x # (u @ ''Approach'' @ replace_str ''Apporach'' ''Approach'' v)"
    using Cons.IH[OF nc] by (simp only:)
  finally show ?case by simp
qed

section \<open>The properties of the specification\<close>

text \<open>
  C3. The first Woolworths row: approach Judgement Based, FWO Without FWO, set-off
  Pay Period, 557C not applicable, clause 28.11, and the label with the misspelling
  corrected.
\<close>

theorem extract_woolworths_row:
  "parse_features_and_tags
     ''Judgement Based Clause 28.11 Apporach | Without FWO | Set-off: Pay Period''
   = Inr \<lparr> approach = ''Judgement Based'', fwo = ''Without FWO'', setoff = ''Pay Period'',
           cond_557c = ''N/A'', clause = ''28.11'',
           label = ''Judgement Based Clause 28.11 Approach | Without FWO | Set-off: Pay Period'' \<rparr>"
  by code_simp

text \<open>
  C4. FWO: a text with "without fwo" is tagged Without FWO whatever else it holds;
  otherwise "with fwo" or "after fwo" gives With FWO; otherwise Unknown.
\<close>

theorem fwo_priority:
  "\<exists>r. parse_features_and_tags text = Inr r \<and>
     fwo r = (if contains ''without fwo'' (lower text) then ''Without FWO''
              else if contains ''with fwo'' (lower text) \<or> contains ''after fwo'' (lower text)
              then ''With FWO'' else ''Unknown'')"
  using parse_total[of "text"] by (auto simp: fwo_of_def)

text \<open>
  C5. The 557C condition: N/A without "557c"; with it, All Shifts if "all shifts" occurs,
  else Non-Clocked Shifts if "non-clocked" or "non clocked" occurs, else unspecified.
\<close>

theorem cond_557c_cases:
  "\<exists>r. parse_features_and_tags text = Inr r \<and>
     cond_557c r =
       (if contains ''557c'' (lower text) then
          (if contains ''all shifts'' (lower text) then ''All Shifts''
           else if contains ''non-clocked'' (lower text) \<or> contains ''non clocked'' (lower text)
           then ''Non-Clocked Shifts'' else ''557C (Unspecified)'')
        else ''N/A'')"
  using parse_total[of "text"] by (auto simp: cond_557c_of_def)

text \<open>
  C6. The empty text: approach, FWO, set-off and clause are Unknown, the 557C condition
  is N/A and the label is empty.
\<close>

theorem extract_empty:
  "parse_features_and_tags [] =
     Inr \<lparr> approach = ''Unknown'', fwo = ''Unknown'', setoff = ''Unknown'',
           cond_557c = ''N/A'', clause = ''Unknown'', label = [] \<rparr>"
  by code_simp

text \<open>
  C9. On "Set-off: 6 months" the capture pattern matches with the single blank before
  the digit as its capture, so the set-off tag is the empty string, although the
  keyword scan would have given Unknown.
\<close>

theorem setoff_blank_capture:
  "re_search rx_setoff (lower ''Set-off: 6 months'') = Some (Some '' '', ''6 months'') \<and>
   parse_features_and_tags ''Set-off: 6 months'' =
     Inr \<lparr> approach = ''Unknown'', fwo = ''Unknown'', setoff = [],
           cond_557c = ''N/A'', clause = ''Unknown'', label = ''Set-off: 6 months'' \<rparr> \<and>
   setoff_keywords (lower ''Set-off: 6 months'') = ''Unknown''"
  by code_simp

text \<open>
  C1. The keyword scan, reached when "set-off" occurs and no pattern matches. The text
  "Set-off Bi-Annual" is such a text with "bi-annual" and without "pay period"; its
  set-off tag is Annual. The scan never gives Bi Annual, on any text: each of the three
  bi-annual forms contains "annual", which is tested before them.
\<close>

theorem keyword_scan_biannual:
  "setoff_keywords t \<noteq> ''Bi Annual'' \<and>
   contains ''set-off'' (lower ''Set-off Bi-Annual'') \<and>
   re_search rx_setoff (lower ''Set-off Bi-Annual'') = None \<and>
   contains ''bi-annual'' (lower ''Set-off Bi-Annual'') \<and>
   \<not> contains ''pay period'' (lower ''Set-off Bi-Annual'') \<and>
   parse_features_and_tags ''Set-off Bi-Annual'' =
     Inr \<lparr> approach = ''Unknown'', fwo = ''Unknown'', setoff = ''Annual'',
           cond_557c = ''N/A'', clause = ''Unknown'', label = ''Set-off Bi-Annual'' \<rparr>"
proof -
  have "setoff_keywords t \<noteq> ''Bi Annual''" by (simp add: setoff_keywords_simp)
  moreover have "contains ''set-off'' (lower ''Set-off Bi-Annual'')" by code_simp
  moreover have "re_search rx_setoff (lower ''Set-off Bi-Annual'') = None" by code_simp
  moreover have "contains ''bi-annual'' (lower ''Set-off Bi-Annual'')" by code_simp
  moreover have "\<not> contains ''pay period'' (lower ''Set-off Bi-Annual'')" by code_simp
  moreover have "parse_features_and_tags ''Set-off Bi-Annual'' =
     Inr \<lparr> approach = ''Unknown'', fwo = ''Unknown'', setoff = ''Annual'',
           cond_557c = ''N/A'', clause = ''Unknown'', label = ''Set-off Bi-Annual'' \<rparr>"
    by code_simp
  ultimately show ?thesis by blast
qed

text \<open>
  C2. The extractor returns a record for every text, never an error. Each of approach,
  FWO, 557C condition and clause is the value of its first phrase that occurs, or its
  sentinel (Unknown, N/A) when none occurs. The set-off tag is Unknown when the text has
  no "set-off"; when no pattern matches it is Pay Period, Annual or Unknown by keyword;
  when the first pattern matches it is the stripped, title-cased capture, and the capture
  is a non-empty text of lower-case letters, whitespace and hyphens. Such a capture may
  be whitespace only, and then the tag is the empty string and not the sentinel: the
  text "Coles Based Clause 28.11 Approach | Set-off: | With FWO" names no set-off, the
  pattern captures the blank after the colon, and the tag is empty. The result is a
  function of the text alone: the extractor reads and writes no other state.
\<close>

theorem extract_total:
  "(\<exists>r. parse_features_and_tags text = Inr r \<and>
      approach r =
        (if contains ''judgement based'' (lower text) then ''Judgement Based''
         else if contains ''coles based'' (lower text) then ''Coles Based'' else ''Unknown'') \<and>
      fwo r =
        (if contains ''without fwo'' (lower text) then ''Without FWO''
         else if contains ''with fwo'' (lower text) \<or> contains ''after fwo'' (lower text)
         then ''With FWO'' else ''Unknown'') \<and>
      cond_557c r =
        (if contains ''557c'' (lower text) then
           (if contains ''all shifts'' (lower text) then ''All Shifts''
            else if contains ''non-clocked'' (lower text) \<or> contains ''non clocked'' (lower text)
            then ''Non-Clocked Shifts'' else ''557C (Unspecified)'')
         else ''N/A'') \<and>
      clause r = (if contains ''28.11'' (lower text) then ''28.11'' else ''Unknown'') \<and>
      label r = short_label text \<and>
      (if contains ''set-off'' (lower text)
       then (re_search rx_setoff (lower text) = None \<and>
             setoff r =
               (if contains ''pay period'' (lower text) then ''Pay Period''
                else if contains ''annual'' (lower text) then ''Annual'' else ''Unknown''))
            \<or> (\<exists>c rest. re_search rx_setoff (lower text) = Some (Some c, rest) \<and>
                  c \<noteq> [] \<and> list_all setoff_char c \<and> setoff r = title (strip c))
       else setoff r = ''Unknown'')) \<and>
   re_search rx_setoff (lower ''Coles Based Clause 28.11 Approach | Set-off: | With FWO'')
     = Some (Some '' '', ''| with fwo'') \<and>
   parse_features_and_tags ''Coles Based Clause 28.11 Approach | Set-off: | With FWO'' =
     Inr \<lparr> approach = ''Coles Based'', fwo = ''With FWO'', setoff = [],
           cond_557c = ''N/A'', clause = ''28.11'',
           label = ''Coles Based Clause 28.11 Approach | Set-off: | With FWO'' \<rparr>"
proof -
  obtain so where so: "setoff_of (lower text) = Inr so"
    and p: "parse_features_and_tags text =
     Inr \<lparr> approach = approach_of (lower text), fwo = fwo_of (lower text), setoff = so,
           cond_557c = cond_557c_of (lower text), clause = clause_of (lower text),
           label = short_label text \<rparr>"
    using parse_total[of "text"] by blast
  have g: "Group1Plus setoff_char \<in> set rx_setoff" by (simp add: rx_setoff_def)
  have s: "if contains ''set-off'' (lower text)
       then (re_search rx_setoff (lower text) = None \<and>
             so =
               (if contains ''pay period'' (lower text) then ''Pay Period''
                else if contains ''annual'' (lower text) then ''Annual'' else ''Unknown''))
            \<or> (\<exists>c rest. re_search rx_setoff (lower text) = Some (Some c, rest) \<and>
                  c \<noteq> [] \<and> list_all setoff_char c \<and> so = title (strip c))
       else so = ''Unknown''"
  proof (cases "contains ''set-off'' (lower text)")
    case False
    with so show ?thesis by (simp add: setoff_of_single)
  next
    case True
    show ?thesis
    proof (cases "re_search rx_setoff (lower text)")
      case None
      with so True have "so = setoff_keywords (lower text)"
        by (simp add: setoff_of_single)
      with None True show ?thesis by (simp add: setoff_keywords_simp)
    next
      case (Some a)
      obtain g0 rest where a: "a = (g0, rest)" by (cases a)
      with Some re_search_group1[OF _ g] obtain c where c: "g0 = Some c" by blast
      from Some a c have r: "re_search rx_setoff (lower text) = Some (Some c, rest)" by simp
      from so True r have "so = title (strip c)"
        by (simp add: setoff_of_single group1_strip_title_def)
      moreover from r have "c \<noteq> []" by (rule setoff_capture_nonempty)
      moreover from r have "list_all setoff_char c" by (rule setoff_capture_chars)
      ultimately show ?thesis using True r by simp
    qed
  qed
  have general: "\<exists>r. parse_features_and_tags text = Inr r \<and>
      approach r =
        (if contains ''judgement based'' (lower text) then ''Judgement Based''
         else if contains ''coles based'' (lower text) then ''Coles Based'' else ''Unknown'') \<and>
      fwo r =
        (if contains ''without fwo'' (lower text) then ''Without FWO''
         else if contains ''with fwo'' (lower text) \<or> contains ''after fwo'' (lower text)
         then ''With FWO'' else ''Unknown'') \<and>
      cond_557c r =
        (if contains ''557c'' (lower text) then
           (if contains ''all shifts'' (lower text) then ''All Shifts''
            else if contains ''non-clocked'' (lower text) \<or> contains ''non clocked'' (lower text)
            then ''Non-Clocked Shifts'' else ''557C (Unspecified)'')
         else ''N/A'') \<and>
      clause r = (if contains ''28.11'' (lower text) then ''28.11'' else ''Unknown'') \<and>
      label r = short_label text \<and>
      (if contains ''set-off'' (lower text)
       then (re_search rx_setoff (lower text) = None \<and>
             setoff r =
               (if contains ''pay period'' (lower text) then ''Pay Period''
                else if contains ''annual'' (lower text) then ''Annual'' else ''Unknown''))
            \<or> (\<exists>c rest. re_search rx_setoff (lower text) = Some (Some c, rest) \<and>
                  c \<noteq> [] \<and> list_all setoff_char c \<and> setoff r = title (strip c))
       else setoff r = ''Unknown'')"
  proof -
    let ?r = "\<lparr> approach = approach_of (lower text), fwo = fwo_of (lower text), setoff = so,
           cond_557c = cond_557c_of (lower text), clause = clause_of (lower text),
           label = short_label text \<rparr>"
    have f1: "approach ?r =
        (if contains ''judgement based'' (lower text) then ''Judgement Based''
         else if contains ''coles based'' (lower text) then ''Coles Based'' else ''Unknown'')"
      by (simp add: approach_of_def)
    have f2: "fwo ?r =
        (if contains ''without fwo'' (lower text) then ''Without FWO''
         else if contains ''with fwo'' (lower text) \<or> contains ''after fwo'' (lower text)
         then ''With FWO'' else ''Unknown'')"
      by (simp add: fwo_of_def)
    have f3: "cond_557c ?r =
        (if contains ''557c'' (lower text) then
           (if contains ''all shifts'' (lower text) then ''All Shifts''
            else if contains ''non-clocked'' (lower text) \<or> contains ''non clocked'' (lower text)
            then ''Non-Clocked Shifts'' else ''557C (Unspecified)'')
         else ''N/A'')"
      by (simp add: cond_557c_of_def)
    have f4: "clause ?r = (if contains ''28.11'' (lower text) then ''28.11'' else ''Unknown'')"
      by (simp add: clause_of_def)
    have f5: "label ?r = short_label text" by simp
    have f6: "setoff ?r = so" by simp
    have f7: "if contains ''set-off'' (lower text)
       then (re_search rx_setoff (lower text) = None \<and>
             setoff ?r =
               (if contains ''pay period'' (lower text) then ''Pay Period''
                else if contains ''annual'' (lower text) then ''Annual'' else ''Unknown''))
            \<or> (\<exists>c rest. re_search rx_setoff (lower text) = Some (Some c, rest) \<and>
                  c \<noteq> [] \<and> list_all setoff_char c \<and> setoff ?r = title (strip c))
       else setoff ?r = ''Unknown''"
      unfolding f6 by (rule s)
    from p f1 f2 f3 f4 f5 f7 show ?thesis by (intro exI[of _ ?r] conjI)
  qed
  have e1: "re_search rx_setoff (lower ''Coles Based Clause 28.11 Approach | Set-off: | With FWO'')
     = Some (Some '' '', ''| with fwo'')"
    by code_simp
  have e2: "parse_features_and_tags ''Coles Based Clause 28.11 Approach | Set-off: | With FWO'' =
     Inr \<lparr> approach = ''Coles Based'', fwo = ''With FWO'', setoff = [],
           cond_557c = ''N/A'', clause = ''28.11'',
           label = ''Coles Based Clause 28.11 Approach | Set-off: | With FWO'' \<rparr>"
    by code_simp
  from general e1 e2 show ?thesis by (intro conjI)
qed

text \<open>
  C7. For every text the consolidated rule (one capture pattern, the keyword scan only
  if the capture is empty) gives the set-off value of the source's dispatch over the
  first pattern, the pipe-terminated pattern and the keywords. The second pattern of
  the source never decides the result (\<open>setoff_of_single\<close>), and a capture is never
  the empty text (\<open>setoff_capture_nonempty\<close>).
\<close>

theorem setoff_dispatch_consolidated:
  "setoff_of t = Inr (setoff_consolidated t)"
proof (cases "re_search rx_setoff t")
  case None
  then show ?thesis
    by (simp add: setoff_of_single setoff_consolidated_def)
next
  case (Some a)
  have g: "Group1Plus setoff_char \<in> set rx_setoff" by (simp add: rx_setoff_def)
  obtain g0 rest where a: "a = (g0, rest)" by (cases a)
  with Some re_search_group1[OF _ g] obtain c where c: "g0 = Some c" by blast
  from Some a c have "c \<noteq> []" by (intro setoff_capture_nonempty[of t c rest]) simp
  moreover have "contains ''set-off'' t" using Some by (rule re_search_setoff_contains)
  ultimately show ?thesis using Some a c
    by (simp add: setoff_of_single setoff_consolidated_def group1_strip_title_def)
qed

text \<open>
  C8. The label cleanup is idempotent: cleaning a label that the cleanup has produced
  gives that label again; so does extracting the tags of a label and reading their
  label.
\<close>

theorem label_cleanup_idempotent:
  "short_label (short_label text) = short_label text \<and>
   (\<exists>r r'. parse_features_and_tags text = Inr r \<and>
            parse_features_and_tags (label r) = Inr r' \<and> label r' = label r)"
proof -
  obtain so where p: "parse_features_and_tags text =
     Inr \<lparr> approach = approach_of (lower text), fwo = fwo_of (lower text), setoff = so,
           cond_557c = cond_557c_of (lower text), clause = clause_of (lower text),
           label = short_label text \<rparr>"
    using parse_total[of "text"] by blast
  obtain so' where p': "parse_features_and_tags (short_label text) =
     Inr \<lparr> approach = approach_of (lower (short_label text)),
           fwo = fwo_of (lower (short_label text)), setoff = so',
           cond_557c = cond_557c_of (lower (short_label text)),
           clause = clause_of (lower (short_label text)),
           label = short_label (short_label text) \<rparr>"
    using parse_total[of "short_label text"] by blast
  show ?thesis
    unfolding p using p' by (simp add: short_label_idem)
qed

text \<open>
  C10. The correction of the misspelling is exact in case and global. No label contains
  "Apporach". A text without the exact string "Apporach" is not changed by the
  replacement, so its label is the text with pipes normalised and stripped. When the
  first occurrence of "Apporach" starts after \<open>u\<close>, it is replaced and the replacement goes
  on in the text after it. Other casings stay: "apporach" and "APPORACH" are kept in the
  label, although the approach tag is found whatever the case.
\<close>

theorem apporach_correction:
  "\<not> contains ''Apporach'' (short_label text) \<and>
   (\<not> contains ''Apporach'' text \<longrightarrow> short_label text = strip (sub_pipes text)) \<and>
   (\<not> contains ''Apporach'' (u @ ''Apporac'') \<longrightarrow>
      replace_str ''Apporach'' ''Approach'' (u @ ''Apporach'' @ v)
        = u @ ''Approach'' @ replace_str ''Apporach'' ''Approach'' v) \<and>
   short_label ''apporach APPORACH Apporach'' = ''apporach APPORACH Approach'' \<and>
   parse_features_and_tags ''judgement BASED apporach'' =
     Inr \<lparr> approach = ''Judgement Based'', fwo = ''Unknown'', setoff = ''Unknown'',
           cond_557c = ''N/A'', clause = ''Unknown'', label = ''judgement BASED apporach'' \<rparr>"
proof -
  have a: "\<not> contains ''Apporach'' (short_label text)" by (rule no_apporach_in_label)
  have b: "short_label text = strip (sub_pipes text)" if "\<not> contains ''Apporach'' text"
  proof -
    from apporach_nonempty that have "replace_str ''Apporach'' ''Approach'' text = text"
      by (rule replace_str_absent)
    then show ?thesis by (subst short_label_def) (simp only:)
  qed
  have c: "short_label ''apporach APPORACH Apporach'' = ''apporach APPORACH Approach''"
    by code_simp
  have d: "parse_features_and_tags ''judgement BASED apporach'' =
     Inr \<lparr> approach = ''Judgement Based'', fwo = ''Unknown'', setoff = ''Unknown'',
           cond_557c = ''N/A'', clause = ''Unknown'', label = ''judgement BASED apporach'' \<rparr>"
    by code_simp
  from a b c d replace_first_occurrence[of u v] show ?thesis by blast
qed

text \<open>C10 at a text with two other casings, and at a text with two occurrences.\<close>

theorem apporach_correction_witness:
  "\<not> contains ''Apporach'' ''apporach |APPORACH'' \<and>
   short_label ''apporach |APPORACH'' = ''apporach | APPORACH'' \<and>
   \<not> contains ''Apporach'' (''x '' @ ''Apporac'') \<and>
   replace_str ''Apporach'' ''Approach'' (''x '' @ ''Apporach'' @ '' y Apporach'')
     = ''x Approach y Approach''"
proof -
  have h1: "\<not> contains ''Apporach'' ''apporach |APPORACH''" by code_simp
  have h2: "\<not> contains ''Apporach'' (''x '' @ ''Apporac'')" by code_simp
  have e1: "strip (sub_pipes ''apporach |APPORACH'') = ''apporach | APPORACH''" by code_simp
  have e2: "replace_str ''Apporach'' ''Approach'' '' y Apporach'' = '' y Approach''"
    by code_simp
  from apporach_correction[of "''apporach |APPORACH''" "''x ''" "'' y Apporach''"] h1 h2
  have "short_label ''apporach |APPORACH'' = strip (sub_pipes ''apporach |APPORACH'')"
    and "replace_str ''Apporach'' ''Approach'' (''x '' @ ''Apporach'' @ '' y Apporach'')
          = ''x '' @ ''Approach'' @ replace_str ''Apporach'' ''Approach'' '' y Apporach''"
    by blast+
  with h1 h2 e1 e2 show ?thesis by simp
qed

end
